theory Spec2Isabelle
  imports Main "HOL-Library.Multiset"
begin

section \<open>Constants of gameAI.py\<close>

type_synonym cell = "int \<times> int"

definition WINDOW_WIDTH :: int where "WINDOW_WIDTH = 800"
definition WINDOW_HEIGHT :: int where "WINDOW_HEIGHT = 600"
definition GRID_SIZE :: int where "GRID_SIZE = 20"
definition GRID_WIDTH :: int where "GRID_WIDTH = WINDOW_WIDTH div GRID_SIZE"
definition GRID_HEIGHT :: int where "GRID_HEIGHT = WINDOW_HEIGHT div GRID_SIZE"

definition UP :: cell where "UP = (0, -1)"
definition DOWN :: cell where "DOWN = (0, 1)"
definition LEFT :: cell where "LEFT = (-1, 0)"
definition RIGHT :: cell where "RIGHT = (1, 0)"
definition DIRECTIONS :: "cell list" where "DIRECTIONS = [UP, DOWN, LEFT, RIGHT]"

text \<open>The only exception the modelled functions can raise: indexing or popping an
  empty list.\<close>

datatype error = IndexError

section \<open>class Node\<close>

text \<open>
  A search node carries its coordinates, \<open>g\<close>, \<open>h\<close>, \<open>f\<close> and a reference to its parent
  (\<open>None\<close> for the start node). The only nodes the search mutates are entries of the open
  list, and an entry of the open list is never the parent of another node (a parent is
  always the node just popped, and a popped coordinate is closed and never pushed again),
  so a node is modelled as a value and the mutation as a replacement of the list entry.
\<close>

datatype node = Node (node_x: int) (node_y: int) (node_g: int) (node_h: int) (node_f: int)
  (node_parent: "node option")

text \<open>\<open>Node.__init__\<close>: \<open>f = g + h\<close>.\<close>

definition mk_node :: "int \<Rightarrow> int \<Rightarrow> int \<Rightarrow> int \<Rightarrow> node option \<Rightarrow> node" where
  "mk_node x y g h p = Node x y g h (g + h) p"

text \<open>\<open>Node.__lt__\<close>, the comparison heapq uses.\<close>

definition node_lt :: "node \<Rightarrow> node \<Rightarrow> bool" where
  "node_lt a b \<longleftrightarrow> node_f a < node_f b"

definition node_pos :: "node \<Rightarrow> cell" where
  "node_pos n = (node_x n, node_y n)"

section \<open>heapq on a Python list\<close>

text \<open>
  \<open>heapq._siftdown(heap, startpos, pos)\<close>: move the item at \<open>pos\<close> towards the root while
  it is smaller than its parent.
\<close>

function siftdown_loop :: "node list \<Rightarrow> nat \<Rightarrow> nat \<Rightarrow> node \<Rightarrow> node list" where
  "siftdown_loop heap startpos pos newitem =
     (if pos > startpos then
        (let parentpos = (pos - 1) div 2;
             parent = heap ! parentpos
         in if node_lt newitem parent
            then siftdown_loop (heap[pos := parent]) startpos parentpos newitem
            else heap[pos := newitem])
      else heap[pos := newitem])"
  by pat_completeness auto
termination
  by (relation "measure (\<lambda>(heap, startpos, pos, newitem). pos)") auto

declare siftdown_loop.simps [simp del]

definition siftdown :: "node list \<Rightarrow> nat \<Rightarrow> nat \<Rightarrow> node list" where
  "siftdown heap startpos pos = siftdown_loop heap startpos pos (heap ! pos)"

text \<open>
  \<open>heapq._siftup(heap, pos)\<close>: bubble the smaller child up until a leaf is reached, put
  the item there and sift it down.
\<close>

function siftup_loop :: "node list \<Rightarrow> nat \<Rightarrow> nat \<Rightarrow> node list \<times> nat" where
  "siftup_loop heap endpos pos =
     (let childpos = 2 * pos + 1
      in if childpos < endpos then
           (let rightpos = childpos + 1;
                childpos' = (if rightpos < endpos \<and> \<not> node_lt (heap ! childpos) (heap ! rightpos)
                             then rightpos else childpos)
            in siftup_loop (heap[pos := heap ! childpos']) endpos childpos')
         else (heap, pos))"
  by pat_completeness auto
termination
  by (relation "measure (\<lambda>(heap, endpos, pos). endpos - pos)") (auto split: if_splits)

declare siftup_loop.simps [simp del]

definition siftup :: "node list \<Rightarrow> nat \<Rightarrow> node list" where
  "siftup heap pos =
     (let endpos = length heap;
          startpos = pos;
          newitem = heap ! pos
      in case siftup_loop heap endpos pos of
           (heap', pos') \<Rightarrow> siftdown (heap'[pos' := newitem]) startpos pos')"

definition heappush :: "node list \<Rightarrow> node \<Rightarrow> node list" where
  "heappush heap item = siftdown (heap @ [item]) 0 (length heap)"

text \<open>\<open>heapq.heappop\<close> raises IndexError on an empty list.\<close>

definition heappop :: "node list \<Rightarrow> error + node \<times> node list" where
  "heappop heap =
     (if heap = [] then Inl IndexError
      else (let lastelt = last heap;
                heap' = butlast heap
            in if heap' \<noteq> [] then Inr (heap' ! 0, siftup (heap'[0 := lastelt]) 0)
               else Inr (lastelt, heap')))"

section \<open>The pathfinder\<close>

definition heuristic :: "cell \<Rightarrow> cell \<Rightarrow> int" where
  "heuristic a b = \<bar>fst a - fst b\<bar> + \<bar>snd a - snd b\<bar>"

definition in_grid :: "cell \<Rightarrow> bool" where
  "in_grid c \<longleftrightarrow> 0 \<le> fst c \<and> fst c < GRID_WIDTH \<and> 0 \<le> snd c \<and> snd c < GRID_HEIGHT"

text \<open>\<open>get_neighbors\<close>: the in-bounds neighbours, in the order of \<open>DIRECTIONS\<close>, that are
  not in \<open>snake[:-1]\<close>.\<close>

definition get_neighbors :: "cell list \<Rightarrow> cell \<Rightarrow> cell list" where
  "get_neighbors snake pos =
     filter (\<lambda>c. in_grid c \<and> c \<notin> set (butlast snake))
       (map (\<lambda>d. (fst pos + fst d, snd pos + snd d)) DIRECTIONS)"

text \<open>The scan \<open>for node in open_set\<close>: the index of the first entry with the coordinates
  of the neighbour.\<close>

fun find_existing :: "node list \<Rightarrow> cell \<Rightarrow> nat option" where
  "find_existing [] c = None"
| "find_existing (n # ns) c =
     (if node_x n = fst c \<and> node_y n = snd c then Some 0
      else map_option Suc (find_existing ns c))"

text \<open>The body of \<open>for neighbor_pos in self.get_neighbors(...)\<close>, on the open list.\<close>

definition process_neighbor ::
    "cell \<Rightarrow> node \<Rightarrow> cell set \<Rightarrow> cell \<Rightarrow> node list \<Rightarrow> node list" where
  "process_neighbor goal current closed_set neighbor_pos open_set =
     (if neighbor_pos \<in> closed_set then open_set
      else
        (let tentative_g = node_g current + 1;
             neighbor = mk_node (fst neighbor_pos) (snd neighbor_pos) tentative_g
                          (heuristic neighbor_pos goal) (Some current)
         in case find_existing open_set neighbor_pos of
              None \<Rightarrow> heappush open_set neighbor
            | Some i \<Rightarrow>
                (let existing = open_set ! i
                 in if tentative_g < node_g existing
                    then open_set[i := Node (node_x existing) (node_y existing) tentative_g
                                         (node_h existing) (tentative_g + node_h existing)
                                         (Some current)]
                    else open_set)))"

text \<open>Path reconstruction: the cells from the goal node back to, and without, the node
  that has no parent.\<close>

fun walk_parents :: "node \<Rightarrow> cell list" where
  "walk_parents (Node x y g h f None) = []"
| "walk_parents (Node x y g h f (Some p)) = (x, y) # walk_parents p"

text \<open>One iteration of \<open>while open_set\<close>: either the function returns (\<open>Inl\<close>) or the
  loop goes on with a new open list and closed set (\<open>Inr\<close>).\<close>

definition astar_iter ::
    "cell list \<Rightarrow> cell \<Rightarrow> node list \<times> cell set
       \<Rightarrow> (error + cell list) + (node list \<times> cell set)" where
  "astar_iter snake goal st =
     (case st of (open_set, closed_set) \<Rightarrow>
        if open_set = [] then Inl (Inr [])
        else
          (case heappop open_set of
             Inl e \<Rightarrow> Inl (Inl e)
           | Inr (current, open') \<Rightarrow>
               if (node_x current, node_y current) = goal
               then Inl (Inr (rev (walk_parents current)))
               else
                 (let closed' = insert (node_x current, node_y current) closed_set
                  in Inr (fold (process_neighbor goal current closed')
                            (get_neighbors snake (node_x current, node_y current)) open',
                          closed'))))"

text \<open>
  The \<open>while open_set\<close> loop. Every iteration closes the coordinate it pops and pushes
  only coordinates of the grid that are neither closed nor open, which is why the loop
  ends; the termination proof follows the lemmas it needs.
\<close>

function astar_loop :: "cell list \<Rightarrow> cell \<Rightarrow> node list \<times> cell set \<Rightarrow> error + cell list" where
  "astar_loop snake goal st =
     (case astar_iter snake goal st of Inl r \<Rightarrow> r | Inr st' \<Rightarrow> astar_loop snake goal st')"
  by pat_completeness auto

text \<open>\<open>find_path_astar(self, start, goal)\<close>, with \<open>self.snake\<close> as first argument.\<close>

definition find_path_astar :: "cell list \<Rightarrow> cell \<Rightarrow> cell \<Rightarrow> error + cell list" where
  "find_path_astar snake start goal =
     (let start_node = mk_node (fst start) (snd start) 0 (heuristic start goal) None;
          open_set = heappush [] start_node
      in astar_loop snake goal (open_set, {}))"

text \<open>The number of nodes the loop pops from a given state (one per iteration that finds
  the open list non-empty), and the state of the loop after \<open>k\<close> further iterations.\<close>

function astar_pops :: "cell list \<Rightarrow> cell \<Rightarrow> node list \<times> cell set \<Rightarrow> nat" where
  "astar_pops snake goal st =
     (if fst st = [] then 0
      else (case astar_iter snake goal st of
              Inl r \<Rightarrow> 1
            | Inr st' \<Rightarrow> 1 + astar_pops snake goal st'))"
  by pat_completeness auto

fun astar_iterate :: "nat \<Rightarrow> cell list \<Rightarrow> cell \<Rightarrow> node list \<times> cell set \<Rightarrow> node list \<times> cell set" where
  "astar_iterate 0 snake goal st = st"
| "astar_iterate (Suc k) snake goal st =
     (case astar_iter snake goal st of Inl r \<Rightarrow> st | Inr st' \<Rightarrow> astar_iterate k snake goal st')"

definition astar_init :: "cell \<Rightarrow> cell \<Rightarrow> node list \<times> cell set" where
  "astar_init start goal =
     (heappush [] (mk_node (fst start) (snd start) 0 (heuristic start goal) None), {})"

section \<open>The safety fallback\<close>

text \<open>The list \<open>safe_directions\<close> that \<open>get_safe_direction\<close> builds for the head.\<close>

definition safe_directions :: "cell list \<Rightarrow> cell \<Rightarrow> cell list" where
  "safe_directions snake head =
     filter (\<lambda>direction.
               (let new_x = fst head + fst direction;
                    new_y = snd head + snd direction
                in 0 \<le> new_x \<and> new_x < GRID_WIDTH \<and> 0 \<le> new_y \<and> new_y < GRID_HEIGHT
                   \<and> (new_x, new_y) \<notin> set snake))
       DIRECTIONS"

text \<open>\<open>random.choice(seq)\<close> returns \<open>seq[i]\<close> for a random index \<open>i < len(seq)\<close>; the
  random source is the argument \<open>r\<close>. It is only called on a non-empty list.\<close>

definition random_choice :: "nat \<Rightarrow> 'a list \<Rightarrow> 'a" where
  "random_choice r xs = xs ! (r mod length xs)"

text \<open>\<open>self.snake[0]\<close> raises IndexError on an empty snake.\<close>

definition get_safe_direction :: "nat \<Rightarrow> cell list \<Rightarrow> cell \<Rightarrow> error + cell" where
  "get_safe_direction r snake direction =
     (case snake of
        [] \<Rightarrow> Inl IndexError
      | head # _ \<Rightarrow>
          (let sd = safe_directions snake head
           in if sd \<noteq> [] then Inr (random_choice r sd) else Inr direction))"

section \<open>The game state and the tick\<close>

record game =
  self_snake :: "cell list"
  self_direction :: cell
  self_food :: cell
  self_score :: int
  self_food_eaten :: int
  self_current_path :: "cell list"
  self_path_index :: int
  self_ai_running :: bool

text \<open>\<open>generate_food\<close> draws random cells until one is not on the snake. The draws are
  an argument; \<open>None\<close> says that the loop is still running when they are used up.\<close>

fun generate_food :: "cell list \<Rightarrow> cell list \<Rightarrow> cell option" where
  "generate_food snake [] = None"
| "generate_food snake (food_pos # draws) =
     (if food_pos \<notin> set snake then Some food_pos else generate_food snake draws)"

definition reset_game :: "cell list \<Rightarrow> game \<Rightarrow> game option" where
  "reset_game draws s =
     (let snake = [(GRID_WIDTH div 2, GRID_HEIGHT div 2)]
      in case generate_food snake draws of
           None \<Rightarrow> None
         | Some fp \<Rightarrow>
             Some (s\<lparr>self_snake := snake, self_direction := RIGHT, self_food := fp,
                      self_score := 0, self_food_eaten := 0, self_current_path := [],
                      self_path_index := 0\<rparr>))"

definition update_ai :: "nat \<Rightarrow> game \<Rightarrow> error + game" where
  "update_ai r s =
     (case self_snake s of
        [] \<Rightarrow> Inl IndexError
      | head # _ \<Rightarrow>
          (case find_path_astar (self_snake s) head (self_food s) of
             Inl e \<Rightarrow> Inl e
           | Inr path \<Rightarrow>
               (let s1 = s\<lparr>self_current_path := path, self_path_index := 0\<rparr>
                in if path = [] then
                     (case get_safe_direction r (self_snake s1) (self_direction s1) of
                        Inl e \<Rightarrow> Inl e
                      | Inr d \<Rightarrow> Inr (s1\<lparr>self_direction := d\<rparr>))
                   else if self_path_index s1 < int (length path) then
                     (let next_pos = path ! nat (self_path_index s1);
                          dx = fst next_pos - fst head;
                          dy = snd next_pos - snd head
                      in Inr (s1\<lparr>self_direction := (dx, dy),
                                  self_path_index := self_path_index s1 + 1\<rparr>))
                   else Inr s1)))"

definition game_over :: "game \<Rightarrow> game" where
  "game_over s = s\<lparr>self_ai_running := False\<rparr>"

definition update_game :: "nat \<Rightarrow> cell list \<Rightarrow> game \<Rightarrow> (error + game) option" where
  "update_game r draws s =
     (if \<not> self_ai_running s then Some (Inr s)
      else
        (case update_ai r s of
           Inl e \<Rightarrow> Some (Inl e)
         | Inr s1 \<Rightarrow>
             (case self_snake s1 of
                [] \<Rightarrow> Some (Inl IndexError)
              | head # _ \<Rightarrow>
                  (let new_head = (fst head + fst (self_direction s1),
                                   snd head + snd (self_direction s1))
                   in if fst new_head < 0 \<or> fst new_head \<ge> GRID_WIDTH \<or>
                         snd new_head < 0 \<or> snd new_head \<ge> GRID_HEIGHT \<or>
                         new_head \<in> set (self_snake s1)
                      then Some (Inr (game_over s1))
                      else
                        (let s2 = s1\<lparr>self_snake := new_head # self_snake s1\<rparr>
                         in if new_head = self_food s2 then
                              (case generate_food (self_snake s2) draws of
                                 None \<Rightarrow> None
                               | Some fp \<Rightarrow>
                                   Some (Inr (s2\<lparr>self_score := self_score s2 + 10,
                                                   self_food_eaten := self_food_eaten s2 + 1,
                                                   self_food := fp\<rparr>)))
                            else Some (Inr (s2\<lparr>self_snake := butlast (self_snake s2)\<rparr>)))))))"

text \<open>
  The states the shell can bring the game into: creation and the R key reset it (and stop
  the AI), the space key toggles the AI, and every frame runs \<open>update_game\<close>. The random
  cells come from \<open>random.randint\<close> and lie on the grid.
\<close>

inductive reachable :: "game \<Rightarrow> bool" where
  reset: "\<forall>c \<in> set draws. in_grid c \<Longrightarrow> reset_game draws s0 = Some s
          \<Longrightarrow> reachable (s\<lparr>self_ai_running := False\<rparr>)"
| space: "reachable s \<Longrightarrow> reachable (s\<lparr>self_ai_running := \<not> self_ai_running s\<rparr>)"
| tick: "reachable s \<Longrightarrow> \<forall>c \<in> set draws. in_grid c \<Longrightarrow> update_game r draws s = Some (Inr s')
          \<Longrightarrow> reachable s'"

section \<open>Notions of the specification\<close>

text \<open>Two cells are 4-adjacent; a cell is free for the search (in bounds and not on the
  body without its tail); a walk from a cell steps through adjacent free cells.\<close>

definition adjacent :: "cell \<Rightarrow> cell \<Rightarrow> bool" where
  "adjacent a b \<longleftrightarrow> \<bar>fst a - fst b\<bar> + \<bar>snd a - snd b\<bar> = 1"

definition free_cell :: "cell list \<Rightarrow> cell \<Rightarrow> bool" where
  "free_cell snake c \<longleftrightarrow> in_grid c \<and> c \<notin> set (butlast snake)"

fun walk :: "cell list \<Rightarrow> cell \<Rightarrow> cell list \<Rightarrow> bool" where
  "walk snake c [] = True"
| "walk snake c (d # ds) = (adjacent c d \<and> free_cell snake d \<and> walk snake d ds)"

section \<open>Auxiliary notions of the proofs\<close>

text \<open>The grid cells that are neither closed nor open, and the measure of the loop.\<close>

definition unseen :: "node list \<Rightarrow> cell set \<Rightarrow> cell set" where
  "unseen open_set closed_set =
     {c. in_grid c \<and> c \<notin> closed_set \<and> c \<notin> set (map node_pos open_set)}"

definition astar_measure :: "node list \<times> cell set \<Rightarrow> nat" where
  "astar_measure st = 2 * card (unseen (fst st) (snd st)) + length (fst st)"

text \<open>The node pushed for a new neighbour and the in-place update of an open entry.\<close>

definition child :: "cell \<Rightarrow> node \<Rightarrow> cell \<Rightarrow> node" where
  "child goal current nb =
     mk_node (fst nb) (snd nb) (node_g current + 1) (heuristic nb goal) (Some current)"

definition relax :: "node \<Rightarrow> node \<Rightarrow> node" where
  "relax current existing =
     Node (node_x existing) (node_y existing) (node_g current + 1) (node_h existing)
       (node_g current + 1 + node_h existing) (Some current)"

text \<open>A node whose parent links lead back to the start node through neighbour steps.\<close>

fun chain_ok :: "cell list \<Rightarrow> cell \<Rightarrow> node \<Rightarrow> bool" where
  "chain_ok snake start (Node x y g h f None) = ((x, y) = start)"
| "chain_ok snake start (Node x y g h f (Some p)) =
     ((x, y) \<in> set (get_neighbors snake (node_pos p)) \<and> chain_ok snake start p)"

text \<open>The open coordinates are distinct, disjoint from the closed set, and both lie on
  the grid.\<close>

definition frontier_ok :: "node list \<times> cell set \<Rightarrow> bool" where
  "frontier_ok st \<longleftrightarrow>
     distinct (map node_pos (fst st)) \<and> set (map node_pos (fst st)) \<inter> snd st = {} \<and>
     (\<forall>c \<in> set (map node_pos (fst st)). in_grid c) \<and> (\<forall>c \<in> snd st. in_grid c)"

text \<open>The node that \<open>heappop\<close> removes from an open list has the least \<open>f\<close> of all
  its entries.\<close>

definition popped_is_minimal :: "node list \<Rightarrow> bool" where
  "popped_is_minimal open_set =
     (case heappop open_set of
        Inl e \<Rightarrow> True
      | Inr (current, rest) \<Rightarrow> list_all (\<lambda>n. node_f current \<le> node_f n) open_set)"

section \<open>Concrete inputs\<close>

text \<open>A game right after a reset that drew the food two cells above the snake, and a
  snake whose body walls the corner cell \<open>(0, 0)\<close> off from its head.\<close>

definition game0 :: game where
  "game0 = \<lparr>self_snake = [(20, 15)], self_direction = RIGHT, self_food = (20, 13),
            self_score = 0, self_food_eaten = 0, self_current_path = [],
            self_path_index = 0, self_ai_running = False\<rparr>"

text \<open>A snake of 19 cells met in play (head first), with the food at \<open>(26, 15)\<close>.\<close>

definition snake2 :: "cell list" where
  "snake2 = [(29, 24), (29, 25), (29, 26), (28, 26), (27, 26), (26, 26), (26, 25), (26, 24),
             (25, 24), (24, 24), (23, 24), (22, 24), (21, 24), (21, 23), (21, 22), (20, 22),
             (19, 22), (18, 22), (17, 22)]"

text \<open>A snake of 10 cells met in play, with the food at \<open>(39, 4)\<close>.\<close>

definition snake3 :: "cell list" where
  "snake3 = [(35, 0), (36, 0), (37, 0), (38, 0), (38, 1), (38, 2), (38, 3), (38, 4), (38, 5),
             (38, 6)]"

definition snake1 :: "cell list" where
  "snake1 = [(2, 0), (1, 0), (1, 1), (0, 1), (0, 2)]"

section \<open>The heap operations keep the entries\<close>

lemma length_siftdown_loop [simp]:
  "length (siftdown_loop heap startpos pos newitem) = length heap"
  by (induction heap startpos pos newitem rule: siftdown_loop.induct)
     (subst siftdown_loop.simps, simp add: Let_def)

lemma mset_siftdown_loop:
  "pos < length heap \<Longrightarrow>
   mset (siftdown_loop heap startpos pos newitem) = mset (heap[pos := newitem])"
proof (induction heap startpos pos newitem rule: siftdown_loop.induct)
  case (1 heap startpos pos newitem)
  show ?case
  proof (cases "pos > startpos \<and> node_lt newitem (heap ! ((pos - 1) div 2))")
    case False
    then show ?thesis by (subst siftdown_loop.simps) (auto simp: Let_def)
  next
    case True
    define pp where "pp = (pos - 1) div 2"
    have pp: "pp < pos" "pp < length heap" using True "1.prems" by (auto simp: pp_def)
    have "mset (siftdown_loop heap startpos pos newitem)
          = mset (siftdown_loop (heap[pos := heap ! pp]) startpos pp newitem)"
      using True by (subst siftdown_loop.simps) (simp add: Let_def pp_def)
    also have "\<dots> = mset (heap[pos := heap ! pp, pp := newitem])"
      using "1.IH"[of pp "heap ! pp"] True pp by (simp add: pp_def)
    also have "\<dots> = mset (heap[pos := newitem])"
      using mset_swap[of pp "heap[pos := newitem]" pos] pp "1.prems" by simp
    finally show ?thesis .
  qed
qed

lemma siftup_loop_props:
  "siftup_loop heap endpos pos = (heap', pos') \<Longrightarrow> endpos = length heap \<Longrightarrow> pos < endpos \<Longrightarrow>
   pos' < length heap \<and> length heap' = length heap \<and>
   mset (heap'[pos' := x]) = mset (heap[pos := x])"
proof (induction heap endpos pos arbitrary: heap' pos' rule: siftup_loop.induct)
  case (1 heap endpos pos)
  show ?case
  proof (cases "2 * pos + 1 < endpos")
    case False
    then have "siftup_loop heap endpos pos = (heap, pos)"
      by (subst siftup_loop.simps) (simp add: Let_def)
    with "1.prems" show ?thesis by simp
  next
    case True
    define c where "c = (if 2 * pos + 2 < endpos \<and> \<not> node_lt (heap ! (2 * pos + 1)) (heap ! (2 * pos + 2))
                         then 2 * pos + 2 else 2 * pos + 1)"
    have c: "c < endpos" "pos < c" using True by (auto simp: c_def)
    have step: "siftup_loop heap endpos pos = siftup_loop (heap[pos := heap ! c]) endpos c"
      using True by (subst siftup_loop.simps) (simp add: Let_def c_def)
    have IH: "pos' < length (heap[pos := heap ! c]) \<and> length heap' = length (heap[pos := heap ! c]) \<and>
          mset (heap'[pos' := x]) = mset (heap[pos := heap ! c, c := x])"
      apply (rule "1.IH"[of "2 * pos + 1" "2 * pos + 2" c])
      using True "1.prems" c step by (simp_all add: c_def)
    have "mset (heap[pos := heap ! c, c := x]) = mset (heap[pos := x])"
      using mset_swap[of c "heap[pos := x]" pos] c "1.prems" by simp
    with IH show ?thesis by simp
  qed
qed

lemma mset_heappush: "mset (heappush heap item) = add_mset item (mset heap)"
  by (simp add: heappush_def siftdown_def mset_siftdown_loop)

lemma heappop_Inr:
  assumes "heappop heap = Inr (cur, heap')"
  shows "mset heap = add_mset cur (mset heap')"
proof -
  from assms have ne: "heap \<noteq> []" by (auto simp: heappop_def)
  show ?thesis
  proof (cases "butlast heap = []")
    case True
    with assms ne have "cur = last heap" "heap' = []" by (auto simp: heappop_def Let_def)
    moreover from True ne have "heap = [last heap]"
      by (metis append_butlast_last_id append_Nil)
    ultimately show ?thesis by (metis mset.simps(1) mset.simps(2))
  next
    case False
    define b where "b = butlast heap"
    define l where "l = last heap"
    have heap: "heap = b @ [l]" using ne by (simp add: b_def l_def)
    have bne0: "b \<noteq> []" using False by (simp add: b_def)
    then have bne: "b \<noteq> []" "0 < length b" by simp_all
    obtain h1 p1 where su: "siftup_loop (b[0 := l]) (length b) 0 = (h1, p1)"
      by (cases "siftup_loop (b[0 := l]) (length b) 0") auto
    from siftup_loop_props[OF su, of l] bne
    have p: "p1 < length b" "length h1 = length b" "mset (h1[p1 := l]) = mset (b[0 := l])"
      by auto
    from assms ne False have cur: "cur = b ! 0"
      and h': "heap' = siftup (b[0 := l]) 0"
      by (auto simp: heappop_def Let_def b_def l_def)
    have "heap' = siftdown_loop (h1[p1 := l]) 0 p1 l"
      using su bne p by (simp add: h' siftup_def Let_def siftdown_def)
    then have "mset heap' = mset (h1[p1 := l])"
      using p by (simp add: mset_siftdown_loop)
    also have "\<dots> = mset (b[0 := l])" by (rule p(3))
    also have "\<dots> = add_mset l (mset b - {#b ! 0#})"
      using bne by (simp add: mset_update)
    finally have "add_mset cur (mset heap') = add_mset l (mset b)"
      using bne cur by (simp add: nth_mem_mset)
    then show ?thesis by (simp add: heap)
  qed
qed

lemma heappop_nonempty: "heap \<noteq> [] \<Longrightarrow> \<exists>cur heap'. heappop heap = Inr (cur, heap')"
  by (auto simp: heappop_def Let_def)

section \<open>Termination of the search\<close>

lemma in_grid_iff: "in_grid c \<longleftrightarrow> c \<in> {0..<40} \<times> {0..<30}"
  by (cases c) (simp add: in_grid_def GRID_WIDTH_def GRID_HEIGHT_def WINDOW_WIDTH_def
      WINDOW_HEIGHT_def GRID_SIZE_def)

lemma finite_grid: "finite {c. in_grid c}"
  by (simp add: in_grid_iff)

lemma finite_unseen [simp]: "finite (unseen open_set closed_set)"
  by (rule finite_subset[OF _ finite_grid]) (auto simp: unseen_def)

lemma find_existing_None:
  "find_existing ns c = None \<longleftrightarrow> c \<notin> set (map node_pos ns)"
  by (induction ns) (auto simp: node_pos_def)

lemma find_existing_Some:
  "find_existing ns c = Some i \<Longrightarrow> i < length ns \<and> node_pos (ns ! i) = c"
proof (induction ns arbitrary: i)
  case Nil
  then show ?case by simp
next
  case (Cons n ns)
  then show ?case
    by (cases c) (auto simp: node_pos_def split: if_splits)
qed

lemma node_pos_relax [simp]: "node_pos (relax c e) = node_pos e"
  by (simp add: relax_def node_pos_def)

lemma node_pos_child [simp]: "node_pos (child goal c nb) = nb"
  by (simp add: child_def node_pos_def mk_node_def)

lemma process_neighbor_cases:
  assumes "open' = process_neighbor goal current closed_set nb open_set"
  obtains
    (same) "open' = open_set"
  | (push) "nb \<notin> closed_set" "nb \<notin> set (map node_pos open_set)"
           "open' = heappush open_set (child goal current nb)"
  | (update) i where "nb \<notin> closed_set" "i < length open_set" "node_pos (open_set ! i) = nb"
           "find_existing open_set nb = Some i"
           "node_g current + 1 < node_g (open_set ! i)"
           "open' = open_set[i := relax current (open_set ! i)]"
proof (cases "nb \<in> closed_set")
  case True
  then show ?thesis using assms same by (simp add: process_neighbor_def)
next
  case nc: False
  show ?thesis
  proof (cases "find_existing open_set nb")
    case None
    then have "nb \<notin> set (map node_pos open_set)"
      using find_existing_None[of open_set nb] by blast
    moreover have "open' = heappush open_set (child goal current nb)"
      using assms nc None by (simp add: process_neighbor_def Let_def child_def)
    ultimately show ?thesis using nc push by blast
  next
    case (Some i)
    note fe = find_existing_Some[OF Some]
    show ?thesis
    proof (cases "node_g current + 1 < node_g (open_set ! i)")
      case True
      have "open' = open_set[i := relax current (open_set ! i)]"
        using assms nc Some True by (simp add: process_neighbor_def Let_def relax_def)
      then show ?thesis using update[of i] nc fe Some True by blast
    next
      case False
      have "open' = open_set"
        using assms nc Some False by (simp add: process_neighbor_def Let_def)
      then show ?thesis by (rule same)
    qed
  qed
qed

lemma process_neighbor_measure:
  assumes "in_grid nb"
  shows "astar_measure (process_neighbor goal current closed_set nb open_set, closed_set)
         \<le> astar_measure (open_set, closed_set)"
proof -
  define open' where "open' = process_neighbor goal current closed_set nb open_set"
  have "astar_measure (open', closed_set) \<le> astar_measure (open_set, closed_set)"
    using open'_def
  proof (cases rule: process_neighbor_cases)
    case same
    then show ?thesis by simp
  next
    case push
    have m: "mset open' = add_mset (child goal current nb) (mset open_set)"
      by (simp add: push mset_heappush)
    then have "size (mset open') = size (add_mset (child goal current nb) (mset open_set))"
      by simp
    then have len: "length open' = Suc (length open_set)"
      by simp
    from m have "set_mset (mset open') = set_mset (add_mset (child goal current nb) (mset open_set))"
      by simp
    then have "set open' = insert (child goal current nb) (set open_set)"
      by simp
    then have "unseen open' closed_set = unseen open_set closed_set - {nb}"
      by (auto simp: unseen_def)
    moreover have "nb \<in> unseen open_set closed_set"
      using push assms by (simp add: unseen_def)
    ultimately have "card (unseen open_set closed_set) = Suc (card (unseen open' closed_set))"
      using card.remove[of "unseen open_set closed_set" nb] by simp
    then show ?thesis using len by (simp add: astar_measure_def)
  next
    case (update i)
    have "map node_pos open' = (map node_pos open_set)[i := node_pos (open_set ! i)]"
      unfolding update(6) by (simp add: map_update)
    also have "\<dots> = map node_pos open_set"
      using update(2) by (simp add: list_update_same_conv)
    finally have "unseen open' closed_set = unseen open_set closed_set"
      by (simp add: unseen_def)
    moreover have "length open' = length open_set"
      unfolding update(6) by simp
    ultimately have "unseen open' closed_set = unseen open_set closed_set" "length open' = length open_set"
      by simp_all
    then show ?thesis by (simp add: astar_measure_def)
  qed
  then show ?thesis by (simp add: open'_def)
qed

lemma get_neighbors_in_grid: "c \<in> set (get_neighbors snake pos) \<Longrightarrow> in_grid c"
  by (simp add: get_neighbors_def)

lemma fold_process_neighbor_measure:
  "\<forall>nb \<in> set nbs. in_grid nb \<Longrightarrow>
   astar_measure (fold (process_neighbor goal current closed_set) nbs open_set, closed_set)
     \<le> astar_measure (open_set, closed_set)"
proof (induction nbs arbitrary: open_set)
  case Nil
  then show ?case by simp
next
  case (Cons nb nbs)
  have "astar_measure (fold (process_neighbor goal current closed_set) nbs
          (process_neighbor goal current closed_set nb open_set), closed_set)
        \<le> astar_measure (process_neighbor goal current closed_set nb open_set, closed_set)"
    using Cons by simp
  also have "\<dots> \<le> astar_measure (open_set, closed_set)"
    using Cons.prems by (simp add: process_neighbor_measure)
  finally show ?case by simp
qed

lemma astar_iter_Inr:
  assumes "astar_iter snake goal (open_set, closed_set) = Inr (open', closed')"
  obtains current rest where
    "heappop open_set = Inr (current, rest)"
    "node_pos current \<noteq> goal"
    "closed' = insert (node_pos current) closed_set"
    "open' = fold (process_neighbor goal current closed') (get_neighbors snake (node_pos current)) rest"
proof -
  from assms have ne: "open_set \<noteq> []"
    by (auto simp: astar_iter_def)
  then obtain current rest where pop: "heappop open_set = Inr (current, rest)"
    using heappop_nonempty by blast
  from assms ne pop have ng: "node_pos current \<noteq> goal"
    by (auto simp: astar_iter_def node_pos_def)
  from assms ne pop ng have c: "closed' = insert (node_pos current) closed_set"
    by (auto simp: astar_iter_def node_pos_def Let_def)
  from assms ne pop ng have "open' = fold (process_neighbor goal current (insert (node_pos current) closed_set))
       (get_neighbors snake (node_pos current)) rest"
    by (auto simp: astar_iter_def node_pos_def Let_def)
  with pop ng c that show thesis by blast
qed

lemma heappop_measure:
  assumes "heappop open_set = Inr (current, rest)"
  shows "astar_measure (rest, insert (node_pos current) closed_set) < astar_measure (open_set, closed_set)"
proof -
  from heappop_Inr[OF assms] have m: "mset open_set = add_mset current (mset rest)" .
  then have "size (mset open_set) = size (add_mset current (mset rest))"
    by simp
  then have len: "length open_set = Suc (length rest)"
    by simp
  from m have "set_mset (mset open_set) = set_mset (add_mset current (mset rest))"
    by simp
  then have "set open_set = insert current (set rest)"
    by simp
  then have "unseen rest (insert (node_pos current) closed_set) = unseen open_set closed_set"
    by (auto simp: unseen_def)
  then show ?thesis using len by (simp add: astar_measure_def)
qed

lemma astar_iter_measure:
  assumes "astar_iter snake goal st = Inr st'"
  shows "astar_measure st' < astar_measure st"
proof -
  obtain open_set closed_set open' closed' where st: "st = (open_set, closed_set)" "st' = (open', closed')"
    by (cases st, cases st') auto
  from assms[unfolded st] show ?thesis
  proof (cases rule: astar_iter_Inr)
    case (1 current rest)
    have "astar_measure (open', closed') \<le> astar_measure (rest, closed')"
      unfolding 1(4) by (rule fold_process_neighbor_measure) (simp add: get_neighbors_in_grid)
    also have "\<dots> < astar_measure (open_set, closed_set)"
      unfolding 1(3) by (rule heappop_measure[OF 1(1)])
    finally show ?thesis by (simp add: st)
  qed
qed

termination astar_loop
proof (relation "measure (\<lambda>(snake, goal, st). astar_measure st)")
  show "wf (measure (\<lambda>(snake, goal, st). astar_measure st))" by simp
next
  fix snake goal st st'
  assume "astar_iter snake goal st = Inr st'"
  then show "((snake, goal, st'), (snake, goal, st)) \<in> measure (\<lambda>(snake, goal, st). astar_measure st)"
    by (simp add: astar_iter_measure)
qed

termination astar_pops
proof (relation "measure (\<lambda>(snake, goal, st). astar_measure st)")
  show "wf (measure (\<lambda>(snake, goal, st). astar_measure st))" by simp
next
  fix snake goal st st'
  assume "astar_iter snake goal st = Inr st'"
  then show "((snake, goal, st'), (snake, goal, st)) \<in> measure (\<lambda>(snake, goal, st). astar_measure st)"
    by (simp add: astar_iter_measure)
qed

declare astar_loop.simps [simp del]
declare astar_pops.simps [simp del]

section \<open>Basic facts\<close>

lemmas grid_consts = GRID_WIDTH_def GRID_HEIGHT_def WINDOW_WIDTH_def WINDOW_HEIGHT_def GRID_SIZE_def
lemmas dir_defs = DIRECTIONS_def UP_def DOWN_def LEFT_def RIGHT_def

lemma heappush_Nil [simp]: "heappush [] n = [n]"
  by (simp add: heappush_def siftdown_def siftdown_loop.simps)

lemma heappop_single [simp]: "heappop [n] = Inr (n, [])"
  by (simp add: heappop_def)

lemma adjacent_iff:
  "adjacent a b \<longleftrightarrow> (fst b - fst a, snd b - snd a) \<in> set DIRECTIONS"
  by (auto simp: adjacent_def dir_defs)

lemma get_neighbors_iff:
  "d \<in> set (get_neighbors snake c) \<longleftrightarrow> adjacent c d \<and> free_cell snake d"
proof -
  have "d \<in> (\<lambda>v. (fst c + fst v, snd c + snd v)) ` set DIRECTIONS
        \<longleftrightarrow> (fst d - fst c, snd d - snd c) \<in> set DIRECTIONS"
    by (cases c, cases d) (auto simp: dir_defs)
  then show ?thesis
    by (auto simp: get_neighbors_def free_cell_def adjacent_iff)
qed

lemma safe_directions_iff:
  "d \<in> set (safe_directions snake head) \<longleftrightarrow>
     d \<in> set DIRECTIONS \<and> in_grid (fst head + fst d, snd head + snd d)
     \<and> (fst head + fst d, snd head + snd d) \<notin> set snake"
  by (auto simp: safe_directions_def in_grid_def Let_def)

lemma random_choice_mem: "xs \<noteq> [] \<Longrightarrow> random_choice r xs \<in> set xs"
  by (simp add: random_choice_def)

section \<open>Claims about the fallback and the trivial search\<close>

text \<open>
  Claim C10. Calling the pathfinder with the goal equal to the start returns the empty
  path, for every snake body: the value that also reports that no path exists.
\<close>

theorem find_path_astar_goal_is_start: "find_path_astar snake start start = Inr []"
proof -
  have "astar_iter snake start ([mk_node (fst start) (snd start) 0 (heuristic start start) None], {})
        = Inl (Inr [])"
    by (simp add: astar_iter_def mk_node_def)
  then show ?thesis
    by (simp add: find_path_astar_def astar_loop.simps[of snake start "([mk_node (fst start) (snd start) 0 (heuristic start start) None], {})"])
qed

text \<open>
  Claim C9. For a snake of at least two distinct cells whose tail is in bounds and adjacent
  to the head, the neighbour query of the pathfinder at the head contains the tail cell,
  while the direction from the head to the tail is not among the safe directions of the
  fallback.
\<close>

theorem tail_exclusion_asymmetry:
  assumes "2 \<le> length snake" and "distinct snake" and "in_grid (last snake)"
    and "adjacent (hd snake) (last snake)"
  shows "last snake \<in> set (get_neighbors snake (hd snake)) \<and>
         (fst (last snake) - fst (hd snake), snd (last snake) - snd (hd snake))
           \<notin> set (safe_directions snake (hd snake))"
proof -
  from assms(1) have ne: "snake \<noteq> []" by auto
  then have sn: "snake = butlast snake @ [last snake]" by simp
  have "distinct (butlast snake @ [last snake])" using assms(2) sn by simp
  then have "last snake \<notin> set (butlast snake)" by simp
  then have 1: "last snake \<in> set (get_neighbors snake (hd snake))"
    using assms(3,4) by (simp add: get_neighbors_iff free_cell_def)
  have "last snake \<in> set snake" using ne by simp
  then have 2: "(fst (last snake) - fst (hd snake), snd (last snake) - snd (hd snake))
           \<notin> set (safe_directions snake (hd snake))"
    by (simp add: safe_directions_iff)
  from 1 2 show ?thesis ..
qed

text \<open>
  Claim C5. For a non-empty snake and any current direction: if some neighbour of the head
  is in bounds and not on the body (tail included), the fallback returns one of the four
  directions, leading to a cell in bounds and not on the body; if there is none, it
  returns the current direction unchanged.
\<close>

theorem get_safe_direction_safe:
  assumes "snake \<noteq> []"
  shows "((\<exists>d \<in> set DIRECTIONS. in_grid (fst (hd snake) + fst d, snd (hd snake) + snd d)
              \<and> (fst (hd snake) + fst d, snd (hd snake) + snd d) \<notin> set snake)
          \<longrightarrow> (\<exists>d. get_safe_direction r snake direction = Inr d \<and> d \<in> set DIRECTIONS
                 \<and> in_grid (fst (hd snake) + fst d, snd (hd snake) + snd d)
                 \<and> (fst (hd snake) + fst d, snd (hd snake) + snd d) \<notin> set snake))
       \<and> ((\<forall>d \<in> set DIRECTIONS. \<not> (in_grid (fst (hd snake) + fst d, snd (hd snake) + snd d)
              \<and> (fst (hd snake) + fst d, snd (hd snake) + snd d) \<notin> set snake))
          \<longrightarrow> get_safe_direction r snake direction = Inr direction)"
proof -
  obtain head rest where sn: "snake = head # rest" using assms by (cases snake) auto
  define sd where "sd = safe_directions snake head"
  have g: "get_safe_direction r snake direction = (if sd \<noteq> [] then Inr (random_choice r sd) else Inr direction)"
    by (simp add: get_safe_direction_def sn sd_def Let_def)
  have mem: "\<And>d. d \<in> set sd \<longleftrightarrow> d \<in> set DIRECTIONS \<and> in_grid (fst head + fst d, snd head + snd d)
     \<and> (fst head + fst d, snd head + snd d) \<notin> set snake"
    unfolding sd_def by (rule safe_directions_iff)
  show ?thesis
  proof (intro conjI impI)
    assume "\<exists>d \<in> set DIRECTIONS. in_grid (fst (hd snake) + fst d, snd (hd snake) + snd d)
              \<and> (fst (hd snake) + fst d, snd (hd snake) + snd d) \<notin> set snake"
    then obtain d where "d \<in> set sd" using mem sn by auto
    then have ne: "sd \<noteq> []" by auto
    then have "random_choice r sd \<in> set sd" by (rule random_choice_mem)
    then show "\<exists>d. get_safe_direction r snake direction = Inr d \<and> d \<in> set DIRECTIONS
                 \<and> in_grid (fst (hd snake) + fst d, snd (hd snake) + snd d)
                 \<and> (fst (hd snake) + fst d, snd (hd snake) + snd d) \<notin> set snake"
      using g ne mem sn by auto
  next
    assume "\<forall>d \<in> set DIRECTIONS. \<not> (in_grid (fst (hd snake) + fst d, snd (hd snake) + snd d)
              \<and> (fst (hd snake) + fst d, snd (hd snake) + snd d) \<notin> set snake)"
    then have "\<forall>d. d \<notin> set sd" using mem sn by auto
    then have "sd = []" by (cases sd) auto
    then show "get_safe_direction r snake direction = Inr direction"
      using g by simp
  qed
qed

theorem tail_exclusion_asymmetry_witness:
  "2 \<le> length ([(5,5),(5,6),(6,6),(6,5)] :: cell list) \<and> distinct ([(5,5),(5,6),(6,6),(6,5)] :: cell list)
   \<and> in_grid (last ([(5,5),(5,6),(6,6),(6,5)] :: cell list)) \<and> adjacent (hd ([(5,5),(5,6),(6,6),(6,5)] :: cell list)) (last ([(5,5),(5,6),(6,6),(6,5)] :: cell list))
   \<and> (6,5) \<in> set (get_neighbors ([(5,5),(5,6),(6,6),(6,5)] :: cell list) (5,5))
   \<and> RIGHT \<notin> set (safe_directions ([(5,5),(5,6),(6,6),(6,5)] :: cell list) (5,5))"
proof -
  have h: "2 \<le> length ([(5,5),(5,6),(6,6),(6,5)] :: cell list)" "distinct ([(5,5),(5,6),(6,6),(6,5)] :: cell list)"
    "in_grid (last ([(5,5),(5,6),(6,6),(6,5)] :: cell list))" "adjacent (hd ([(5,5),(5,6),(6,6),(6,5)] :: cell list)) (last ([(5,5),(5,6),(6,6),(6,5)] :: cell list))"
    by (simp_all add: in_grid_def grid_consts adjacent_def)
  from tail_exclusion_asymmetry[OF h] h show ?thesis by (simp add: RIGHT_def)
qed

theorem get_safe_direction_safe_witness:
  "(\<exists>d. get_safe_direction 7 ([(0,0),(0,1)] :: cell list) UP = Inr d \<and> d \<in> set DIRECTIONS
       \<and> in_grid (fst (hd ([(0,0),(0,1)] :: cell list)) + fst d, snd (hd ([(0,0),(0,1)] :: cell list)) + snd d)
       \<and> (fst (hd ([(0,0),(0,1)] :: cell list)) + fst d, snd (hd ([(0,0),(0,1)] :: cell list)) + snd d) \<notin> set ([(0,0),(0,1)] :: cell list))
   \<and> get_safe_direction 7 ([(0,0),(0,1),(1,1),(1,0)] :: cell list) UP = Inr UP"
proof -
  have a: "([(0,0),(0,1)] :: cell list) \<noteq> ([] :: cell list)" by simp
  have b: "([(0,0),(0,1),(1,1),(1,0)] :: cell list) \<noteq> ([] :: cell list)" by simp
  have ha: "\<exists>d \<in> set DIRECTIONS. in_grid (fst (hd ([(0,0),(0,1)] :: cell list)) + fst d, snd (hd ([(0,0),(0,1)] :: cell list)) + snd d)
              \<and> (fst (hd ([(0,0),(0,1)] :: cell list)) + fst d, snd (hd ([(0,0),(0,1)] :: cell list)) + snd d) \<notin> set ([(0,0),(0,1)] :: cell list)"
    by (simp add: dir_defs in_grid_def grid_consts)
  have hb: "\<forall>d \<in> set DIRECTIONS. \<not> (in_grid (fst (hd ([(0,0),(0,1),(1,1),(1,0)] :: cell list)) + fst d, snd (hd ([(0,0),(0,1),(1,1),(1,0)] :: cell list)) + snd d)
              \<and> (fst (hd ([(0,0),(0,1),(1,1),(1,0)] :: cell list)) + fst d, snd (hd ([(0,0),(0,1),(1,1),(1,0)] :: cell list)) + snd d) \<notin> set ([(0,0),(0,1),(1,1),(1,0)] :: cell list))"
    by (simp add: dir_defs in_grid_def grid_consts)
  from get_safe_direction_safe[OF a, of 7 UP] ha
  have 1: "\<exists>d. get_safe_direction 7 ([(0,0),(0,1)] :: cell list) UP = Inr d \<and> d \<in> set DIRECTIONS
       \<and> in_grid (fst (hd ([(0,0),(0,1)] :: cell list)) + fst d, snd (hd ([(0,0),(0,1)] :: cell list)) + snd d)
       \<and> (fst (hd ([(0,0),(0,1)] :: cell list)) + fst d, snd (hd ([(0,0),(0,1)] :: cell list)) + snd d) \<notin> set ([(0,0),(0,1)] :: cell list)"
    by (rule mp[OF conjunct1])
  from get_safe_direction_safe[OF b, of 7 UP] hb
  have 2: "get_safe_direction 7 ([(0,0),(0,1),(1,1),(1,0)] :: cell list) UP = Inr UP"
    by (rule mp[OF conjunct2])
  from 1 2 show ?thesis ..
qed

section \<open>Invariants of the search loop\<close>

lemma fold_process_neighbor_induct:
  assumes init: "Q open_set"
    and push: "\<And>os nb. Q os \<Longrightarrow> nb \<in> set nbs \<Longrightarrow> nb \<notin> closed_set \<Longrightarrow>
                 nb \<notin> set (map node_pos os) \<Longrightarrow> Q (heappush os (child goal current nb))"
    and upd: "\<And>os i. Q os \<Longrightarrow> i < length os \<Longrightarrow> node_pos (os ! i) \<in> set nbs \<Longrightarrow>
                 node_pos (os ! i) \<notin> closed_set \<Longrightarrow> node_g current + 1 < node_g (os ! i) \<Longrightarrow>
                 Q (os[i := relax current (os ! i)])"
  shows "Q (fold (process_neighbor goal current closed_set) nbs open_set)"
  using init push upd
proof (induction nbs arbitrary: open_set)
  case Nil
  then show ?case by simp
next
  case (Cons nb nbs)
  define os1 where "os1 = process_neighbor goal current closed_set nb open_set"
  have "Q os1"
    using os1_def
  proof (cases rule: process_neighbor_cases)
    case same
    then show ?thesis using Cons.prems(1) by simp
  next
    case push
    then show ?thesis using Cons.prems(1) Cons.prems(2)[of open_set nb] by simp
  next
    case (update i)
    then show ?thesis using Cons.prems(1) Cons.prems(3)[of open_set i] by simp
  qed
  moreover have "fold (process_neighbor goal current closed_set) (nb # nbs) open_set
      = fold (process_neighbor goal current closed_set) nbs os1"
    by (simp add: os1_def)
  moreover have "Q (fold (process_neighbor goal current closed_set) nbs os1)"
  proof (rule Cons.IH)
    show "Q os1" by fact
  next
    fix os nb'
    assume "Q os" "nb' \<in> set nbs" "nb' \<notin> closed_set" "nb' \<notin> set (map node_pos os)"
    then show "Q (heappush os (child goal current nb'))"
      using Cons.prems(2)[of os nb'] by simp
  next
    fix os i
    assume "Q os" "i < length os" "node_pos (os ! i) \<in> set nbs" "node_pos (os ! i) \<notin> closed_set"
      "node_g current + 1 < node_g (os ! i)"
    then show "Q (os[i := relax current (os ! i)])"
      using Cons.prems(3)[of os i] by simp
  qed
  ultimately show ?case by simp
qed

lemma set_heappush: "set (heappush os n) = insert n (set os)"
proof -
  have "set_mset (mset (heappush os n)) = set_mset (add_mset n (mset os))"
    by (simp only: mset_heappush)
  then show ?thesis by simp
qed

lemma map_node_pos_heappush:
  "mset (map node_pos (heappush os n)) = add_mset (node_pos n) (mset (map node_pos os))"
proof -
  have "mset (map node_pos (heappush os n)) = image_mset node_pos (mset (heappush os n))"
    by simp
  also have "\<dots> = image_mset node_pos (add_mset n (mset os))"
    by (simp only: mset_heappush)
  finally show ?thesis by simp
qed

lemma heappop_set:
  assumes "heappop open_set = Inr (current, rest)"
  shows "set open_set = insert current (set rest)"
proof -
  have "set_mset (mset open_set) = set_mset (add_mset current (mset rest))"
    by (simp only: heappop_Inr[OF assms])
  then show ?thesis by simp
qed

lemma heappop_positions:
  assumes "heappop open_set = Inr (current, rest)"
  shows "mset (map node_pos open_set) = add_mset (node_pos current) (mset (map node_pos rest))"
proof -
  have "mset (map node_pos open_set) = image_mset node_pos (mset open_set)" by simp
  also have "\<dots> = image_mset node_pos (add_mset current (mset rest))"
    by (simp only: heappop_Inr[OF assms])
  finally show ?thesis by simp
qed

lemma map_node_pos_relax:
  assumes "i < length os"
  shows "map node_pos (os[i := relax current (os ! i)]) = map node_pos os"
proof -
  have "map node_pos (os[i := relax current (os ! i)]) = (map node_pos os)[i := node_pos (os ! i)]"
    by (simp add: map_update)
  also have "\<dots> = map node_pos os"
    using assms by (simp add: list_update_same_conv)
  finally show ?thesis .
qed

subsection \<open>Parent chains\<close>

lemma chain_ok_child:
  "chain_ok snake start current \<Longrightarrow> nb \<in> set (get_neighbors snake (node_pos current)) \<Longrightarrow>
   chain_ok snake start (child goal current nb)"
  by (simp add: child_def mk_node_def)

lemma chain_ok_relax:
  "chain_ok snake start current \<Longrightarrow> node_pos e \<in> set (get_neighbors snake (node_pos current)) \<Longrightarrow>
   chain_ok snake start (relax current e)"
  by (simp add: relax_def node_pos_def)

lemma astar_iter_chain_ok:
  assumes "astar_iter snake goal (open_set, closed_set) = Inr (open', closed')"
    and "\<forall>n \<in> set open_set. chain_ok snake start n"
  shows "\<forall>n \<in> set open'. chain_ok snake start n"
  using assms(1)
proof (cases rule: astar_iter_Inr)
  case (1 current rest)
  from heappop_set[OF 1(1)] assms(2)
  have cur: "chain_ok snake start current" and rest: "\<forall>n \<in> set rest. chain_ok snake start n"
    by auto
  show ?thesis
    unfolding 1(4)
  proof (rule fold_process_neighbor_induct[where Q = "\<lambda>os. \<forall>n \<in> set os. chain_ok snake start n"])
    show "\<forall>n \<in> set rest. chain_ok snake start n" by (rule rest)
  next
    fix os nb
    assume "\<forall>n \<in> set os. chain_ok snake start n" "nb \<in> set (get_neighbors snake (node_pos current))"
    then show "\<forall>n \<in> set (heappush os (child goal current nb)). chain_ok snake start n"
      using cur by (simp add: set_heappush chain_ok_child)
  next
    fix os i
    assume a: "\<forall>n \<in> set os. chain_ok snake start n" "i < length os"
      "node_pos (os ! i) \<in> set (get_neighbors snake (node_pos current))"
    have "set (os[i := relax current (os ! i)]) \<subseteq> insert (relax current (os ! i)) (set os)"
      by (rule set_update_subset_insert)
    moreover have "chain_ok snake start (relax current (os ! i))"
      using cur a(3) by (rule chain_ok_relax)
    ultimately show "\<forall>n \<in> set (os[i := relax current (os ! i)]). chain_ok snake start n"
      using a(1) by auto
  qed
qed

lemma walk_append:
  "walk snake c (xs @ [d]) \<longleftrightarrow> walk snake c xs \<and> adjacent (last (c # xs)) d \<and> free_cell snake d"
  by (induction xs arbitrary: c) auto

lemma walk_free: "walk snake c xs \<Longrightarrow> x \<in> set xs \<Longrightarrow> free_cell snake x"
  by (induction xs arbitrary: c) auto

lemma chain_ok_walk:
  "chain_ok snake start n \<Longrightarrow>
   walk snake start (rev (walk_parents n)) \<and> last (start # rev (walk_parents n)) = node_pos n"
proof (induction n rule: walk_parents.induct)
  case (1 x y g h f)
  then show ?case by (simp add: node_pos_def)
next
  case (2 x y g h f p)
  then have ok: "chain_ok snake start p" and nb: "(x, y) \<in> set (get_neighbors snake (node_pos p))"
    by simp_all
  from "2.IH"[OF ok] nb show ?case
    by (simp add: walk_append get_neighbors_iff node_pos_def)
qed

lemma astar_iter_Inl:
  assumes "astar_iter snake goal (open_set, closed_set) = Inl r"
  obtains (empty) "open_set = []" "r = Inr []"
  | (found) current rest where "heappop open_set = Inr (current, rest)" "node_pos current = goal"
      "r = Inr (rev (walk_parents current))"
proof (cases "open_set = []")
  case True
  with assms empty show ?thesis by (simp add: astar_iter_def)
next
  case False
  then obtain current rest where pop: "heappop open_set = Inr (current, rest)"
    using heappop_nonempty by blast
  with assms False have "node_pos current = goal" "r = Inr (rev (walk_parents current))"
    by (auto simp: astar_iter_def node_pos_def Let_def split: if_splits)
  with pop found show ?thesis by blast
qed

lemma astar_loop_sound:
  "\<forall>n \<in> set (fst st). chain_ok snake start n \<Longrightarrow>
   \<exists>p. astar_loop snake goal st = Inr p \<and> (p = [] \<or> (walk snake start p \<and> last p = goal))"
proof (induction snake goal st rule: astar_loop.induct)
  case (1 snake goal st)
  obtain open_set closed_set where st: "st = (open_set, closed_set)" by (cases st)
  show ?case
  proof (cases "astar_iter snake goal st")
    case (Inl r)
    then have loop: "astar_loop snake goal st = r"
      by (simp add: astar_loop.simps[of snake goal st])
    from Inl[unfolded st] show ?thesis
    proof (cases rule: astar_iter_Inl)
      case empty
      then show ?thesis using loop by simp
    next
      case (found current rest)
      from heappop_set[OF found(1)] "1.prems" st have "chain_ok snake start current" by simp
      from chain_ok_walk[OF this] found(2)
      have "walk snake start (rev (walk_parents current))"
        and "last (start # rev (walk_parents current)) = goal" by simp_all
      then show ?thesis using loop found(3) by (auto split: if_splits)
    qed
  next
    case (Inr st')
    then have loop: "astar_loop snake goal st = astar_loop snake goal st'"
      by (simp add: astar_loop.simps[of snake goal st])
    obtain open' closed' where st': "st' = (open', closed')" by (cases st')
    from astar_iter_chain_ok[OF Inr[unfolded st st']] "1.prems" st
    have "\<forall>n \<in> set (fst st'). chain_ok snake start n" by (simp add: st')
    from "1.IH"[OF Inr this] loop show ?thesis by simp
  qed
qed

lemma find_path_astar_init:
  "find_path_astar snake start goal = astar_loop snake goal (astar_init start goal)"
  by (simp add: find_path_astar_def astar_init_def)

lemma astar_init_chain_ok: "\<forall>n \<in> set (fst (astar_init start goal)). chain_ok snake start n"
  by (simp add: astar_init_def mk_node_def)

lemma find_path_astar_sound:
  "\<exists>p. find_path_astar snake start goal = Inr p \<and> (p = [] \<or> (walk snake start p \<and> last p = goal))"
  unfolding find_path_astar_init by (rule astar_loop_sound[OF astar_init_chain_ok])

section \<open>Claims about the search\<close>

lemma astar_iter_frontier_ok:
  assumes "astar_iter snake goal (open_set, closed_set) = Inr (open', closed')"
    and "frontier_ok (open_set, closed_set)"
  shows "frontier_ok (open', closed')"
  using assms(1)
proof (cases rule: astar_iter_Inr)
  case (1 current rest)
  note pos = heappop_positions[OF 1(1)]
  from assms(2) have d: "distinct (map node_pos open_set)"
    and dj: "set (map node_pos open_set) \<inter> closed_set = {}"
    and g1: "\<forall>c \<in> set (map node_pos open_set). in_grid c"
    and g2: "\<forall>c \<in> closed_set. in_grid c"
    by (simp_all add: frontier_ok_def)
  have "distinct (map node_pos open_set) \<longleftrightarrow> distinct (node_pos current # map node_pos rest)"
    by (rule mset_eq_imp_distinct_iff) (use pos in simp)
  with d have dr: "distinct (map node_pos rest)" and cr: "node_pos current \<notin> set (map node_pos rest)"
    by simp_all
  have "set_mset (mset (map node_pos open_set)) = set_mset (add_mset (node_pos current) (mset (map node_pos rest)))"
    by (simp only: pos)
  then have so: "set (map node_pos open_set) = insert (node_pos current) (set (map node_pos rest))"
    by simp
  have base: "frontier_ok (rest, closed')"
    using dr cr so dj g1 g2 unfolding frontier_ok_def 1(3) by auto
  have "frontier_ok (fold (process_neighbor goal current closed') (get_neighbors snake (node_pos current)) rest, closed')"
  proof (rule fold_process_neighbor_induct[where Q = "\<lambda>os. frontier_ok (os, closed')"])
    show "frontier_ok (rest, closed')" by (rule base)
  next
    fix os nb
    assume a: "frontier_ok (os, closed')" "nb \<in> set (get_neighbors snake (node_pos current))"
      "nb \<notin> closed'" "nb \<notin> set (map node_pos os)"
    let ?os' = "heappush os (child goal current nb)"
    have m: "mset (map node_pos ?os') = mset (nb # map node_pos os)"
      using map_node_pos_heappush[of os "child goal current nb"] by simp
    have "distinct (map node_pos ?os') \<longleftrightarrow> distinct (nb # map node_pos os)"
      by (rule mset_eq_imp_distinct_iff[OF m])
    moreover have "set (map node_pos ?os') = set (nb # map node_pos os)"
      by (rule mset_eq_setD[OF m])
    moreover have "in_grid nb" using a(2) by (rule get_neighbors_in_grid)
    ultimately show "frontier_ok (?os', closed')"
      using a(1,3,4) unfolding frontier_ok_def by auto
  next
    fix os i
    assume a: "frontier_ok (os, closed')" "i < length os"
    have "map node_pos (os[i := relax current (os ! i)]) = map node_pos os"
      by (rule map_node_pos_relax[OF a(2)])
    then show "frontier_ok (os[i := relax current (os ! i)], closed')"
      using a(1) by (simp add: frontier_ok_def)
  qed
  then show ?thesis by (simp only: 1(4))
qed

lemma astar_pops_bound:
  "frontier_ok st \<Longrightarrow> astar_pops snake goal st \<le> card ({c. in_grid c} - snd st)"
proof (induction snake goal st rule: astar_pops.induct)
  case (1 snake goal st)
  obtain open_set closed_set where st: "st = (open_set, closed_set)" by (cases st)
  show ?case
  proof (cases "open_set = []")
    case True
    have "astar_pops snake goal ([], closed_set) = 0"
      by (simp add: astar_pops.simps[of snake goal "([], closed_set)"])
    then show ?thesis using True by (simp add: st)
  next
    case False
    then obtain current rest where pop: "heappop open_set = Inr (current, rest)"
      using heappop_nonempty by blast
    from heappop_set[OF pop] have "node_pos current \<in> set (map node_pos open_set)" by simp
    with "1.prems" st have cin: "in_grid (node_pos current)" "node_pos current \<notin> closed_set"
      by (auto simp: frontier_ok_def)
    have fin: "finite ({c. in_grid c} - closed_set)" using finite_grid by simp
    have mem: "node_pos current \<in> {c. in_grid c} - closed_set" using cin by simp
    then have pos: "0 < card ({c. in_grid c} - closed_set)"
      using fin by (auto simp: card_gt_0_iff)
    show ?thesis
    proof (cases "astar_iter snake goal st")
      case (Inl r)
      then have "astar_pops snake goal st = 1"
        using False by (simp add: astar_pops.simps[of snake goal "(open_set, closed_set)"] st)
      then show ?thesis using pos st by simp
    next
      case (Inr st')
      obtain open' closed' where st': "st' = (open', closed')" by (cases st')
      have eq: "astar_pops snake goal st = 1 + astar_pops snake goal st'"
        using False Inr by (simp add: astar_pops.simps[of snake goal "(open_set, closed_set)"] st)
      from Inr[unfolded st st'] have c': "closed' = insert (node_pos current) closed_set"
        using pop by (cases rule: astar_iter_Inr) simp
      have ok': "frontier_ok st'"
        using astar_iter_frontier_ok[OF Inr[unfolded st st']] "1.prems" st st' by simp
      have "astar_pops snake goal st' \<le> card ({c. in_grid c} - snd st')"
        using "1.IH"[OF _ Inr ok'] False st by simp
      also have "{c. in_grid c} - snd st' = ({c. in_grid c} - closed_set) - {node_pos current}"
        using c' st' by auto
      also have "card \<dots> = card ({c. in_grid c} - closed_set) - 1"
        using mem fin by (simp add: card_Diff_singleton)
      finally show ?thesis using eq pos st by simp
    qed
  qed
qed

lemma card_grid: "card {c. in_grid c} = nat (GRID_WIDTH * GRID_HEIGHT)"
proof -
  have "{c. in_grid c} = {0..<40} \<times> {0..<30}"
    by (auto simp: in_grid_iff)
  then show ?thesis by (simp add: grid_consts)
qed

lemma frontier_ok_init: "in_grid start \<Longrightarrow> frontier_ok (astar_init start goal)"
  by (simp add: frontier_ok_def astar_init_def node_pos_def mk_node_def)

text \<open>
  Claim C7. For every snake and goal and every start on the grid the search returns a
  path (it terminates without raising), and the number of nodes it pops is at most
  \<open>GRID_WIDTH * GRID_HEIGHT\<close>.
\<close>

theorem find_path_astar_terminates_bounded:
  assumes "in_grid start"
  shows "(\<exists>path. find_path_astar snake start goal = Inr path) \<and>
         astar_pops snake goal (astar_init start goal) \<le> nat (GRID_WIDTH * GRID_HEIGHT)"
proof -
  from find_path_astar_sound[of snake start goal]
  have 1: "\<exists>path. find_path_astar snake start goal = Inr path" by blast
  have "astar_pops snake goal (astar_init start goal) \<le> card ({c. in_grid c} - snd (astar_init start goal))"
    by (rule astar_pops_bound[OF frontier_ok_init[OF assms]])
  also have "\<dots> = nat (GRID_WIDTH * GRID_HEIGHT)"
    by (simp add: astar_init_def card_grid)
  finally show ?thesis using 1 by simp
qed

text \<open>
  Claim C3. Every cell of a path the search returns is in bounds and is not a member of
  the body without its last element.
\<close>

theorem find_path_astar_respects_obstacles:
  assumes "find_path_astar snake start goal = Inr path" and "c \<in> set path"
  shows "0 \<le> fst c \<and> fst c < GRID_WIDTH \<and> 0 \<le> snd c \<and> snd c < GRID_HEIGHT \<and> c \<notin> set (butlast snake)"
proof -
  from find_path_astar_sound[of snake start goal] assms
  have "walk snake start path" by auto
  from walk_free[OF this assms(2)] show ?thesis
    by (simp add: free_cell_def in_grid_def)
qed

text \<open>
  Claim C4. When no non-empty walk through adjacent free cells leads from the start to the
  goal, the search returns the empty path, and does not raise.
\<close>

theorem find_path_astar_unreachable_empty:
  assumes "\<forall>path. path \<noteq> [] \<longrightarrow> walk snake start path \<longrightarrow> last path \<noteq> goal"
  shows "find_path_astar snake start goal = Inr []"
  using find_path_astar_sound[of snake start goal] assms by auto

lemma find_path_astar_first_step:
  assumes "find_path_astar snake start goal = Inr (p # ps)"
  shows "(fst p - fst start, snd p - snd start) \<in> set DIRECTIONS"
proof -
  from find_path_astar_sound[of snake start goal] assms
  have "walk snake start (p # ps)" by auto
  then show ?thesis by (simp add: adjacent_iff)
qed

section \<open>Claims about the decision engine\<close>

lemma safe_directions_subset: "set (safe_directions snake head) \<subseteq> set DIRECTIONS"
  by (auto simp: safe_directions_def)

lemma get_safe_direction_unit:
  assumes "snake \<noteq> []" and "direction \<in> set DIRECTIONS"
  shows "\<exists>d. get_safe_direction r snake direction = Inr d \<and> d \<in> set DIRECTIONS"
proof -
  obtain head rest where sn: "snake = head # rest" using assms(1) by (cases snake) auto
  show ?thesis
  proof (cases "safe_directions snake head = []")
    case True
    then show ?thesis using assms(2) by (simp add: get_safe_direction_def sn)
  next
    case False
    then have "random_choice r (safe_directions snake head) \<in> set DIRECTIONS"
      using random_choice_mem safe_directions_subset by blast
    then show ?thesis using False by (simp add: get_safe_direction_def sn Let_def)
  qed
qed

lemma update_ai_unit:
  assumes "self_snake s \<noteq> []" and "self_direction s \<in> set DIRECTIONS"
  shows "\<exists>s'. update_ai r s = Inr s' \<and> self_direction s' \<in> set DIRECTIONS
              \<and> self_snake s' = self_snake s \<and> self_food s' = self_food s
              \<and> self_ai_running s' = self_ai_running s"
proof -
  obtain head rest where sn: "self_snake s = head # rest" using assms(1) by (cases "self_snake s") auto
  obtain path where fp: "find_path_astar (self_snake s) head (self_food s) = Inr path"
    using find_path_astar_sound[of "self_snake s" head "self_food s"] by blast
  show ?thesis
  proof (cases path)
    case Nil
    obtain d where d: "get_safe_direction r (self_snake s) (self_direction s) = Inr d" "d \<in> set DIRECTIONS"
      using get_safe_direction_unit[OF assms] by blast
    then show ?thesis using fp Nil sn by (simp add: update_ai_def)
  next
    case (Cons p ps)
    have "(fst p - fst head, snd p - snd head) \<in> set DIRECTIONS"
      using find_path_astar_first_step fp Cons by blast
    then show ?thesis using fp Cons sn by (simp add: update_ai_def Let_def)
  qed
qed

lemma update_game_unit:
  assumes "self_snake s \<noteq> []" and "self_direction s \<in> set DIRECTIONS"
    and "update_game r draws s = Some (Inr s')"
  shows "self_snake s' \<noteq> [] \<and> self_direction s' \<in> set DIRECTIONS"
proof (cases "self_ai_running s")
  case False
  then show ?thesis using assms by (simp add: update_game_def)
next
  case True
  obtain s1 where s1: "update_ai r s = Inr s1" "self_direction s1 \<in> set DIRECTIONS"
    "self_snake s1 = self_snake s"
    using update_ai_unit[OF assms(1,2)] by blast
  from assms(1) s1(3) have "self_snake s1 \<noteq> []" by simp
  then obtain head rest where sn: "self_snake s1 = head # rest"
    by (auto simp: neq_Nil_conv)
  from assms(3) True s1(1) sn s1(2) show ?thesis
    by (auto simp: update_game_def Let_def game_over_def split: if_splits option.splits)
qed

lemma reachable_invariant:
  "reachable s \<Longrightarrow> self_snake s \<noteq> [] \<and> self_direction s \<in> set DIRECTIONS"
proof (induction rule: reachable.induct)
  case (reset draws s0 s)
  then show ?case
    by (auto simp: reset_game_def Let_def dir_defs split: option.splits)
next
  case (space s)
  then show ?case by simp
next
  case (tick s draws r s')
  then show ?case using update_game_unit by blast
qed

text \<open>
  Claim C8. In every state the shell can reach from a reset, the direction is one of the
  four unit vectors, the decision engine returns without raising and leaves such a
  direction, and the delta between the head and the first cell of a found path is one
  of the four unit vectors.
\<close>

theorem engine_direction_unit:
  assumes "reachable s"
  shows "self_direction s \<in> set DIRECTIONS
       \<and> (\<forall>r. \<exists>s'. update_ai r s = Inr s' \<and> self_direction s' \<in> set DIRECTIONS)
       \<and> (\<forall>p ps. find_path_astar (self_snake s) (hd (self_snake s)) (self_food s) = Inr (p # ps)
            \<longrightarrow> (fst p - fst (hd (self_snake s)), snd p - snd (hd (self_snake s))) \<in> set DIRECTIONS)"
proof -
  from reachable_invariant[OF assms]
  have inv: "self_snake s \<noteq> []" "self_direction s \<in> set DIRECTIONS" by simp_all
  have "\<exists>s'. update_ai r s = Inr s' \<and> self_direction s' \<in> set DIRECTIONS" for r
    using update_ai_unit[OF inv, of r] by blast
  then show ?thesis
    using inv(2) find_path_astar_first_step by blast
qed

lemma reachable_game0: "reachable game0"
proof -
  have a: "\<forall>c \<in> set [(20, 13)]. in_grid c" by (simp add: in_grid_def grid_consts)
  have b: "reset_game [(20, 13)] game0 = Some game0"
    by (simp add: reset_game_def game0_def grid_consts)
  have "reachable (game0\<lparr>self_ai_running := False\<rparr>)"
    by (rule reachable.reset[OF a b])
  then show ?thesis by (simp add: game0_def)
qed

lemma find_path_game0: "find_path_astar [(20, 15)] (20, 15) (20, 13) = Inr [(20, 14), (20, 13)]"
  by code_simp

theorem engine_direction_unit_witness:
  "reachable game0 \<and> self_direction game0 \<in> set DIRECTIONS
   \<and> (\<exists>s'. update_ai 0 game0 = Inr s' \<and> self_direction s' = UP \<and> self_direction s' \<in> set DIRECTIONS)
   \<and> (fst ((20, 14) :: cell) - fst (hd (self_snake game0)), snd ((20, 14) :: cell) - snd (hd (self_snake game0))) \<in> set DIRECTIONS"
proof -
  note eng = engine_direction_unit[OF reachable_game0]
  from eng have 1: "self_direction game0 \<in> set DIRECTIONS" by blast
  from eng obtain s' where s': "update_ai 0 game0 = Inr s'" "self_direction s' \<in> set DIRECTIONS"
    by blast
  have "update_ai 0 game0 = Inr (game0\<lparr>self_current_path := [(20, 14), (20, 13)], self_path_index := 1,
          self_direction := UP\<rparr>)"
    by (simp add: update_ai_def game0_def find_path_game0 UP_def)
  with s' have 2: "\<exists>s'. update_ai 0 game0 = Inr s' \<and> self_direction s' = UP \<and> self_direction s' \<in> set DIRECTIONS"
    by auto
  have fp: "find_path_astar (self_snake game0) (hd (self_snake game0)) (self_food game0) = Inr [(20, 14), (20, 13)]"
    by (simp add: game0_def find_path_game0)
  from eng fp have 3: "(fst ((20, 14) :: cell) - fst (hd (self_snake game0)), snd ((20, 14) :: cell) - snd (hd (self_snake game0))) \<in> set DIRECTIONS"
    by blast
  from reachable_game0 1 2 3 show ?thesis by blast
qed

lemma walk_last_step:
  "walk snake c path \<Longrightarrow> path \<noteq> [] \<Longrightarrow>
   adjacent c (last path) \<or> (\<exists>c'. free_cell snake c' \<and> adjacent c' (last path))"
proof (induction path arbitrary: c)
  case Nil
  then show ?case by simp
next
  case (Cons d ds)
  show ?case
  proof (cases ds)
    case Nil
    then show ?thesis using Cons.prems by simp
  next
    case (Cons e es)
    from Cons.prems have w: "walk snake d ds" and f: "free_cell snake d" by simp_all
    have ne: "ds \<noteq> []" using Cons by simp
    from Cons.IH[OF w ne] f
    have "\<exists>c'. free_cell snake c' \<and> adjacent c' (last ds)" by blast
    then show ?thesis using ne by simp
  qed
qed

lemma no_walk_snake1:
  "\<forall>path. path \<noteq> [] \<longrightarrow> walk snake1 (2, 0) path \<longrightarrow> last path \<noteq> (0, 0)"
proof (intro allI impI notI)
  fix path :: "cell list"
  assume a: "path \<noteq> []" "walk snake1 (2, 0) path" "last path = (0, 0)"
  have "\<not> adjacent (2, 0) (0, 0)" by (simp add: adjacent_def)
  moreover have "\<not> (free_cell snake1 c' \<and> adjacent c' (0, 0))" for c'
    by (cases c') (auto simp: adjacent_iff dir_defs free_cell_def snake1_def in_grid_def)
  ultimately show False using walk_last_step[OF a(2) a(1)] a(3) by auto
qed

theorem find_path_astar_unreachable_empty_witness: "find_path_astar snake1 (2, 0) (0, 0) = Inr []"
  by (rule find_path_astar_unreachable_empty[OF no_walk_snake1])

lemma find_path_snake2:
  "find_path_astar snake2 (29, 24) (26, 15) =
     Inr [(29, 23), (29, 22), (29, 21), (28, 21), (28, 20), (27, 20), (27, 19), (27, 18),
          (27, 17), (26, 17), (25, 17), (25, 16), (25, 15), (26, 15)]"
  by code_simp

lemma find_path_snake3:
  "find_path_astar snake3 (35, 0) (39, 4) =
     Inr [(35, 1), (35, 2), (36, 2), (36, 3), (36, 4), (37, 4), (37, 5), (37, 6), (38, 6),
          (39, 6), (39, 5), (39, 4)]"
  by code_simp

text \<open>
  Two searches around a body. The body of \<open>snake3\<close> lies between its head and the food: the
  returned path passes the column of the body at the tail cell \<open>(38, 6)\<close>, the one body cell
  the search does not treat as occupied, and its cell \<open>(37, 4)\<close> lies next to the body cell
  \<open>(38, 4)\<close>. The second search is the one of the 19-cell snake \<open>snake2\<close>.
\<close>

theorem find_path_astar_respects_obstacles_witness:
  "find_path_astar snake3 (35, 0) (39, 4) =
     Inr [(35, 1), (35, 2), (36, 2), (36, 3), (36, 4), (37, 4), (37, 5), (37, 6), (38, 6),
          (39, 6), (39, 5), (39, 4)]
   \<and> butlast snake3 =
       [(35, 0), (36, 0), (37, 0), (38, 0), (38, 1), (38, 2), (38, 3), (38, 4), (38, 5)]
   \<and> 0 \<le> fst ((37, 4) :: cell) \<and> fst ((37, 4) :: cell) < GRID_WIDTH
   \<and> 0 \<le> snd ((37, 4) :: cell) \<and> snd ((37, 4) :: cell) < GRID_HEIGHT
   \<and> (37, 4) \<notin> set (butlast snake3)
   \<and> 0 \<le> fst ((38, 6) :: cell) \<and> fst ((38, 6) :: cell) < GRID_WIDTH
   \<and> 0 \<le> snd ((38, 6) :: cell) \<and> snd ((38, 6) :: cell) < GRID_HEIGHT
   \<and> (38, 6) \<notin> set (butlast snake3)
   \<and> find_path_astar snake2 (29, 24) (26, 15) =
     Inr [(29, 23), (29, 22), (29, 21), (28, 21), (28, 20), (27, 20), (27, 19), (27, 18),
          (27, 17), (26, 17), (25, 17), (25, 16), (25, 15), (26, 15)]
   \<and> length (butlast snake2) = 18
   \<and> 0 \<le> fst ((25, 17) :: cell) \<and> fst ((25, 17) :: cell) < GRID_WIDTH
   \<and> 0 \<le> snd ((25, 17) :: cell) \<and> snd ((25, 17) :: cell) < GRID_HEIGHT
   \<and> (25, 17) \<notin> set (butlast snake2)"
proof -
  have m1: "(37, 4) \<in> set [(35, 1), (35, 2), (36, 2), (36, 3), (36, 4), (37, 4), (37, 5),
              (37, 6), (38, 6), (39, 6), (39, 5), (39, 4 :: int)]" by simp
  have m2: "(38, 6) \<in> set [(35, 1), (35, 2), (36, 2), (36, 3), (36, 4), (37, 4), (37, 5),
              (37, 6), (38, 6), (39, 6), (39, 5), (39, 4 :: int)]" by simp
  have m3: "(25, 17) \<in> set [(29, 23), (29, 22), (29, 21), (28, 21), (28, 20), (27, 20),
              (27, 19), (27, 18), (27, 17), (26, 17), (25, 17), (25, 16), (25, 15),
              (26, 15 :: int)]" by simp
  have b3: "butlast snake3 =
       [(35, 0), (36, 0), (37, 0), (38, 0), (38, 1), (38, 2), (38, 3), (38, 4), (38, 5)]"
    by (simp add: snake3_def)
  have b2: "length (butlast snake2) = 18"
    by (simp add: snake2_def)
  note r1 = find_path_astar_respects_obstacles[OF find_path_snake3 m1]
  note r2 = find_path_astar_respects_obstacles[OF find_path_snake3 m2]
  note r3 = find_path_astar_respects_obstacles[OF find_path_snake2 m3]
  from r1 r2 r3 b2 b3 find_path_snake2 find_path_snake3 show ?thesis
    by (simp only: simp_thms)
qed

theorem find_path_astar_terminates_bounded_witness:
  "in_grid (20, 15) \<and> (\<exists>path. find_path_astar [(20, 15)] (20, 15) (18, 0) = Inr path)
   \<and> astar_pops [(20, 15)] (18, 0) (astar_init (20, 15) (18, 0)) \<le> nat (GRID_WIDTH * GRID_HEIGHT)"
proof -
  have g: "in_grid (20, 15)" by (simp add: in_grid_def grid_consts)
  from find_path_astar_terminates_bounded[OF g, of "[(20, 15)]" "(18, 0)"] g show ?thesis by simp
qed

section \<open>Where the search departs from A*\<close>

lemma walk_snake2:
  "walk snake2 (29, 24) [(29, 23), (29, 22), (29, 21), (29, 20), (29, 19), (29, 18), (29, 17),
                         (29, 16), (29, 15), (28, 15), (27, 15), (26, 15)]"
  by code_simp

text \<open>
  Claim C1. The claim is that a returned non-empty path is a shortest walk through free
  cells. For the snake \<open>snake2\<close>, its head as start and the goal \<open>(26, 15)\<close> the search
  returns a path of 14 cells, while a walk of 12 free cells leads from the start to the
  goal: the update of an open entry in place leaves the list out of heap order, and the
  search then pops and closes nodes out of order.
\<close>

theorem find_path_astar_not_shortest:
  "find_path_astar snake2 (29, 24) (26, 15) =
     Inr [(29, 23), (29, 22), (29, 21), (28, 21), (28, 20), (27, 20), (27, 19), (27, 18),
          (27, 17), (26, 17), (25, 17), (25, 16), (25, 15), (26, 15)]
   \<and> walk snake2 (29, 24) [(29, 23), (29, 22), (29, 21), (29, 20), (29, 19), (29, 18), (29, 17),
                         (29, 16), (29, 15), (28, 15), (27, 15), (26, 15)]
   \<and> last [(29, 23), (29, 22), (29, 21), (29, 20), (29, 19), (29, 18), (29, 17),
            (29, 16), (29, 15), (28, 15), (27, 15), (26, 15)] = ((26, 15) :: cell)
   \<and> length [(29, 23), (29, 22), (29, 21), (29, 20), (29, 19), (29, 18), (29, 17),
            (29, 16), (29, 15), (28, 15), (27, 15), (26, 15 :: int)] = (12 :: nat)
   \<and> (\<exists>path. find_path_astar snake2 (29, 24) (26, 15) = Inr path \<and> length path = 14)"
  using find_path_snake2 walk_snake2 by simp

lemma find_path_empty_grid:
  "find_path_astar [(0, 0)] (0, 0) (3, 15) =
     Inr [(0, 1), (0, 2), (0, 3), (1, 3), (2, 3), (2, 4), (2, 5), (2, 6), (3, 6), (3, 7),
          (3, 8), (3, 9), (3, 10), (3, 11), (3, 12), (3, 13), (4, 13), (4, 14), (4, 15), (3, 15)]"
  by code_simp

text \<open>
  Claim C6. The claim is that without obstacles the returned path is as long as the
  Manhattan distance. For the snake \<open>[(0, 0)]\<close>, start \<open>(0, 0)\<close> and goal \<open>(3, 15)\<close> the
  distance is 18 and the search returns a path of 20 cells.
\<close>

theorem find_path_astar_longer_than_manhattan:
  "in_grid (0, 0) \<and> in_grid (3, 15) \<and> butlast [(0, 0) :: cell] = []
   \<and> heuristic (0, 0) (3, 15) = 18
   \<and> (\<exists>path. find_path_astar [(0, 0)] (0, 0) (3, 15) = Inr path \<and> length path = 20)"
  using find_path_empty_grid by (simp add: in_grid_def grid_consts heuristic_def)

lemma first_search_not_minimal:
  "\<not> popped_is_minimal (fst (astar_iterate 37 [(20, 15)] (18, 0) (astar_init (20, 15) (18, 0))))"
  by code_simp

lemma snake3_not_minimal:
  "map node_f (fst (astar_iterate 12 snake3 (39, 4) (astar_init (35, 0) (39, 4))))
     = [10, 10, 10, 10, 8, 10, 10]
   \<and> map_sum id (\<lambda>r. node_f (fst r))
        (heappop (fst (astar_iterate 12 snake3 (39, 4) (astar_init (35, 0) (39, 4))))) = Inr 10
   \<and> \<not> popped_is_minimal (fst (astar_iterate 12 snake3 (39, 4) (astar_init (35, 0) (39, 4))))"
  by code_simp

text \<open>
  Claim C2. The claim is that every iteration pops a node of least \<open>f\<close>. In the first
  search of a game (snake \<open>[(20, 15)]\<close>) with the food at \<open>(18, 0)\<close>, the open list after 37
  iterations holds an entry whose \<open>f\<close> is below that of the node the next \<open>heappop\<close>
  removes. The same happens for the snake \<open>snake3\<close>, its head as start and the food at
  \<open>(39, 4)\<close>: the open list after 12 iterations holds entries with the \<open>f\<close> values
  10, 10, 10, 10, 8, 10, 10 in this order (the 8 comes from the update in place two
  iterations earlier), and \<open>heappop\<close> removes the first one.
\<close>

theorem heappop_not_minimal_after_update:
  "\<not> popped_is_minimal (fst (astar_iterate 37 [(20, 15)] (18, 0) (astar_init (20, 15) (18, 0))))
   \<and> map node_f (fst (astar_iterate 12 snake3 (39, 4) (astar_init (35, 0) (39, 4))))
     = [10, 10, 10, 10, 8, 10, 10]
   \<and> map_sum id (\<lambda>r. node_f (fst r))
        (heappop (fst (astar_iterate 12 snake3 (39, 4) (astar_init (35, 0) (39, 4))))) = Inr 10
   \<and> \<not> popped_is_minimal (fst (astar_iterate 12 snake3 (39, 4) (astar_init (35, 0) (39, 4))))"
  using first_search_not_minimal snake3_not_minimal by (simp only: simp_thms)

end
